theory Spec2Isabelle
  imports
    Main
    "HOL-Library.Multiset"
    "HOL-Library.Char_ord"
    "HOL-Library.List_Lexorder"
begin

section \<open>Data model\<close>

text \<open>
  \<^verbatim>\<open>LocationData\<close> of \<^verbatim>\<open>Table.tsx\<close> is an object with the fields \<^verbatim>\<open>id\<close>,
  \<^verbatim>\<open>location\<close>, \<^verbatim>\<open>month\<close>, \<^verbatim>\<open>year\<close> and \<^verbatim>\<open>total\<close>. \<^verbatim>\<open>App.tsx\<close> receives
  \<^verbatim>\<open>Omit<LocationData, 'id'>\<close>, the same object without \<^verbatim>\<open>id\<close>; the record
  with the identifier extends the record without it. The fields \<^verbatim>\<open>id\<close> and
  \<^verbatim>\<open>total\<close> carry a suffix because HOL already has constants of these names.

  Strings are lists of code units and \<open><\<close> on them is the lexicographic order on
  the codes, which is what the relational operators of the source language compute on
  two strings. The \<^verbatim>\<open>number\<close> fields are taken to hold integers (no NaN, no
  fractions): the three comparisons and the two subtractions of the comparator then
  are the ones on \<open>int\<close>.
\<close>

record RawLocation =
  location :: string
  month :: int
  year :: int
  total_field :: int

record LocationData = RawLocation +
  id_field :: string

text \<open>\<^verbatim>\<open>keyof LocationData\<close>: the names of the five fields.\<close>

datatype Key = K_id | K_location | K_month | K_year | K_total

datatype SortDirection = ascending | descending

text \<open>The value read by \<^verbatim>\<open>a[column]\<close> is a string or a number.\<close>

datatype Value = Str string | Num int

fun field_of :: "LocationData \<Rightarrow> Key \<Rightarrow> Value" where
  "field_of a K_id = Str (id_field a)"
| "field_of a K_location = Str (location a)"
| "field_of a K_month = Num (month a)"
| "field_of a K_year = Num (year a)"
| "field_of a K_total = Num (total_field a)"

text \<open>
  The operators \<^verbatim>\<open><\<close> and \<^verbatim>\<open>>\<close> on two values. Both operands of every
  comparison in the source are the same field of two records, so the mixed cases
  never arise; they are given the value \<open>False\<close>.
\<close>

fun js_lt :: "Value \<Rightarrow> Value \<Rightarrow> bool" where
  "js_lt (Num x) (Num y) = (x < y)"
| "js_lt (Str s) (Str t) = (s < t)"
| "js_lt _ _ = False"

definition js_gt :: "Value \<Rightarrow> Value \<Rightarrow> bool" where
  "js_gt v w = js_lt w v"

section \<open>The platform's array sort\<close>

text \<open>
  \<^verbatim>\<open>Array.prototype.sort\<close> with a comparison function is a stable sort: an
  element \<open>x\<close> that stands before \<open>y\<close> in the input stays before it unless the
  comparison of the two is positive. It is modelled by the stable insertion sort; for a
  consistent comparison function every stable sort returns the same sequence.
\<close>

fun insertBy :: "('a \<Rightarrow> 'a \<Rightarrow> int) \<Rightarrow> 'a \<Rightarrow> 'a list \<Rightarrow> 'a list" where
  "insertBy cmp x [] = [x]"
| "insertBy cmp x (y # ys) =
     (if cmp x y \<le> 0 then x # y # ys else y # insertBy cmp x ys)"

fun array_sort :: "('a \<Rightarrow> 'a \<Rightarrow> int) \<Rightarrow> 'a list \<Rightarrow> 'a list" where
  "array_sort cmp [] = []"
| "array_sort cmp (x # xs) = insertBy cmp x (array_sort cmp xs)"

section \<open>The sort engine of \<^verbatim>\<open>Table.tsx\<close>\<close>

text \<open>
  \<^verbatim>\<open>String.prototype.localeCompare\<close> belongs to the platform and depends on its
  locale; it is the parameter \<open>lc\<close> of the comparator. The language standard asks it
  to be a consistent comparison of all strings, which is the predicate \<open>collation\<close>.
\<close>

definition collation :: "(string \<Rightarrow> string \<Rightarrow> int) \<Rightarrow> bool" where
  "collation lc \<longleftrightarrow>
     (\<forall>s. lc s s = 0) \<and>
     (\<forall>s t. (lc s t < 0) = (0 < lc t s)) \<and>
     (\<forall>s t u. lc s t \<le> 0 \<longrightarrow> lc t u \<le> 0 \<longrightarrow> lc s u \<le> 0)"

text \<open>A collation to run the definitions with: the order of the code units.\<close>

definition ordinalCompare :: "string \<Rightarrow> string \<Rightarrow> int" where
  "ordinalCompare s t = (if s < t then - 1 else if t < s then 1 else 0)"

text \<open>The inner function \<^verbatim>\<open>compareValues\<close> of \<^verbatim>\<open>sortItems\<close>.\<close>

definition compareValues ::
  "(string \<Rightarrow> string \<Rightarrow> int) \<Rightarrow> Key \<Rightarrow> SortDirection \<Rightarrow> LocationData \<Rightarrow> LocationData \<Rightarrow> int"
where
  "compareValues lc column direction a b =
     (let aVal = field_of a column; bVal = field_of b column in
      case (aVal, bVal) of
        (Str s, Str t) \<Rightarrow>
          (let comparison = lc s t in
           if direction = ascending then comparison else - comparison)
      | _ \<Rightarrow>
          if js_lt aVal bVal then (if direction = ascending then - 1 else 1)
          else if js_gt aVal bVal then (if direction = ascending then 1 else - 1)
          else
            (let locationCompare = lc (location a) (location b) in
             if locationCompare \<noteq> 0 then locationCompare
             else if year a \<noteq> year b then year b - year a
             else month b - month a))"

text \<open>
  \<^verbatim>\<open>sortItems\<close> returns \<^verbatim>\<open>items.slice().sort(compareValues)\<close>. On the level of
  values this is the sorted sequence. (The source gives \<^verbatim>\<open>direction\<close> the default
  \<^verbatim>\<open>'ascending'\<close>; here the direction is always passed.)
\<close>

definition sortItems ::
  "(string \<Rightarrow> string \<Rightarrow> int) \<Rightarrow> LocationData list \<Rightarrow> Key \<Rightarrow> SortDirection \<Rightarrow> LocationData list"
where
  "sortItems lc items column direction = array_sort (compareValues lc column direction) items"

section \<open>Arrays as objects in a store\<close>

text \<open>
  An array is an object: \<^verbatim>\<open>sort\<close> reorders the array it is called on and returns
  that same array, \<^verbatim>\<open>slice\<close> and the spread \<^verbatim>\<open>[...xs]\<close> allocate a new one. The
  store is the list of all arrays allocated so far and a reference is an index into it;
  a new array goes to the end. The records themselves are never written to, so they
  stay values.
\<close>

type_synonym store = "LocationData list list"

definition slice :: "store \<Rightarrow> nat \<Rightarrow> store \<times> nat" where
  "slice h r = (h @ [h ! r], length h)"

definition sort_in_place ::
  "(LocationData \<Rightarrow> LocationData \<Rightarrow> int) \<Rightarrow> store \<Rightarrow> nat \<Rightarrow> store \<times> nat" where
  "sort_in_place cmp h r = (h[r := array_sort cmp (h ! r)], r)"

definition sortItems_st ::
  "(string \<Rightarrow> string \<Rightarrow> int) \<Rightarrow> store \<Rightarrow> nat \<Rightarrow> Key \<Rightarrow> SortDirection \<Rightarrow> store \<times> nat" where
  "sortItems_st lc h items column direction =
     (case slice h items of (h1, copy) \<Rightarrow>
        sort_in_place (compareValues lc column direction) h1 copy)"

section \<open>The table component\<close>

record SortDescriptor =
  column :: Key
  direction :: SortDirection

text \<open>The argument of \<^verbatim>\<open>useState\<close>.\<close>

definition initialSortDescriptor :: SortDescriptor where
  "initialSortDescriptor = \<lparr>column = K_location, direction = ascending\<rparr>"

text \<open>The comparison function written inline in the \<^verbatim>\<open>useMemo\<close> of the component.\<close>

definition inlineCompare :: "SortDescriptor \<Rightarrow> LocationData \<Rightarrow> LocationData \<Rightarrow> int" where
  "inlineCompare sortDescriptor a b =
     (let first = field_of a (column sortDescriptor);
          second = field_of b (column sortDescriptor);
          cmp = (if js_lt first second then - 1 else if js_gt first second then 1 else 0)
      in if direction sortDescriptor = ascending then cmp else - cmp)"

text \<open>\<^verbatim>\<open>sortedItems\<close>: a copy of \<^verbatim>\<open>props.items\<close>, sorted by the inline comparison.\<close>

definition sortedItems :: "LocationData list \<Rightarrow> SortDescriptor \<Rightarrow> LocationData list" where
  "sortedItems items sortDescriptor = array_sort (inlineCompare sortDescriptor) items"

text \<open>The same computation on the store: \<^verbatim>\<open>[...props.items]\<close> is the copy.\<close>

definition sortedItems_st :: "store \<Rightarrow> nat \<Rightarrow> SortDescriptor \<Rightarrow> store \<times> nat" where
  "sortedItems_st h props_items sortDescriptor =
     (case slice h props_items of (h1, items) \<Rightarrow>
        sort_in_place (inlineCompare sortDescriptor) h1 items)"

section \<open>The record normalizer of \<^verbatim>\<open>App.tsx\<close>\<close>

text \<open>
  A template literal converts a number to its decimal numeral, with a leading minus
  sign for a negative one (integers below \<open>10\<^sup>2\<^sup>1\<close> in absolute value).
\<close>

definition digitChar :: "nat \<Rightarrow> char" where
  "digitChar n = ''0123456789'' ! (n mod 10)"

fun natToString :: "nat \<Rightarrow> string" where
  "natToString n =
     (if n < 10 then [digitChar n] else natToString (n div 10) @ [digitChar (n mod 10)])"

declare natToString.simps [simp del]

definition numberToString :: "int \<Rightarrow> string" where
  "numberToString i = (if i < 0 then CHR ''-'' # natToString (nat (- i)) else natToString (nat i))"

definition mapLocationResult :: "RawLocation list \<Rightarrow> LocationData list" where
  "mapLocationResult preprocessed =
     map (\<lambda>r. \<lparr>location = location r, month = month r, year = year r,
                total_field = total_field r,
                id_field = location r @ ''-'' @ numberToString (month r) @ ''-'' @
                           numberToString (year r)\<rparr>)
         preprocessed"

section \<open>The sort state controller\<close>

text \<open>
  The component keeps the descriptor in a state cell and hands the table widget
  \<^verbatim>\<open>onSortChange={setSortDescriptor}\<close>: the setter replaces the state by the
  descriptor it is given.
\<close>

definition setSortDescriptor :: "SortDescriptor \<Rightarrow> SortDescriptor \<Rightarrow> SortDescriptor" where
  "setSortDescriptor previous next_descriptor = next_descriptor"

text \<open>
  Modelled from the spec: the descriptor that the table widget passes to
  \<^verbatim>\<open>onSortChange\<close> when the header of a column is activated. The widget is the
  imported \<^verbatim>\<open>react-aria-components\<close> table, whose code is not among the sources;
  section 4.3 of the specification gives its rule: another column than the current one
  is sorted ascending, the current column has its direction flipped.
\<close>

definition requestSort :: "SortDescriptor \<Rightarrow> Key \<Rightarrow> SortDescriptor" where
  "requestSort current requested =
     (if requested \<noteq> column current
      then \<lparr>column = requested, direction = ascending\<rparr>
      else \<lparr>column = column current,
            direction = (if direction current = ascending then descending else ascending)\<rparr>)"

text \<open>One \<^verbatim>\<open>RequestSort\<close> event: the widget computes the descriptor, the setter stores it.\<close>

definition onSortChange :: "SortDescriptor \<Rightarrow> Key \<Rightarrow> SortDescriptor" where
  "onSortChange sortDescriptor requested =
     setSortDescriptor sortDescriptor (requestSort sortDescriptor requested)"

section \<open>Notions used in the statements\<close>

text \<open>
  A comparison function is consistent when exchanging the arguments exchanges the sign
  and \<open>\<le> 0\<close> is transitive.
\<close>

definition consistent :: "('a \<Rightarrow> 'a \<Rightarrow> int) \<Rightarrow> bool" where
  "consistent cmp \<longleftrightarrow>
     (\<forall>a b. (cmp a b < 0) = (0 < cmp b a)) \<and>
     (\<forall>a b c. cmp a b \<le> 0 \<longrightarrow> cmp b c \<le> 0 \<longrightarrow> cmp a c \<le> 0)"

text \<open>The value of the last four lines of \<^verbatim>\<open>compareValues\<close>, the tie-break chain.\<close>

definition tieBreak :: "(string \<Rightarrow> string \<Rightarrow> int) \<Rightarrow> LocationData \<Rightarrow> LocationData \<Rightarrow> int" where
  "tieBreak lc a b =
     (if lc (location a) (location b) \<noteq> 0 then lc (location a) (location b)
      else if year a \<noteq> year b then year b - year a
      else month b - month a)"

text \<open>
  Two records tie in the primary column when the comparison of their values there
  finds them equal: the collation returns 0 on two strings, neither number is smaller.
\<close>

definition primary_tie ::
  "(string \<Rightarrow> string \<Rightarrow> int) \<Rightarrow> Key \<Rightarrow> LocationData \<Rightarrow> LocationData \<Rightarrow> bool" where
  "primary_tie lc col a b =
     (case (field_of a col, field_of b col) of
        (Str s, Str t) \<Rightarrow> lc s t = 0
      | (v, w) \<Rightarrow> \<not> js_lt v w \<and> \<not> js_gt v w)"

text \<open>A list without ties: no record ties with a later one.\<close>

definition no_ties :: "(string \<Rightarrow> string \<Rightarrow> int) \<Rightarrow> Key \<Rightarrow> LocationData list \<Rightarrow> bool" where
  "no_ties lc col xs = sorted_wrt (\<lambda>a b. \<not> primary_tie lc col a b) xs"

text \<open>A full tie: the records agree on location, year, month and the primary column.\<close>

definition full_tie :: "Key \<Rightarrow> LocationData \<Rightarrow> LocationData \<Rightarrow> bool" where
  "full_tie col a b \<longleftrightarrow>
     location a = location b \<and> year a = year b \<and> month a = month b \<and>
     field_of a col = field_of b col"

section \<open>Sample data\<close>

definition raw_x_5 :: RawLocation where
  "raw_x_5 = \<lparr>location = ''X'', month = 1, year = 2020, total_field = 5\<rparr>"

definition raw_x_7 :: RawLocation where
  "raw_x_7 = \<lparr>location = ''X'', month = 1, year = 2020, total_field = 7\<rparr>"

definition raw_y :: RawLocation where
  "raw_y = \<lparr>location = ''Y'', month = 12, year = 2021, total_field = 7\<rparr>"

definition row2020 :: LocationData where
  "row2020 = \<lparr>location = ''X'', month = 1, year = 2020, total_field = 5,
               id_field = ''X-1-2020''\<rparr>"

definition row2021 :: LocationData where
  "row2021 = \<lparr>location = ''X'', month = 1, year = 2021, total_field = 5,
               id_field = ''X-1-2021''\<rparr>"

definition rowA :: LocationData where
  "rowA = \<lparr>location = ''X'', month = 1, year = 2020, total_field = 5, id_field = ''A''\<rparr>"

definition rowB :: LocationData where
  "rowB = \<lparr>location = ''X'', month = 1, year = 2020, total_field = 5, id_field = ''B''\<rparr>"

definition rowC :: LocationData where
  "rowC = \<lparr>location = ''Beta'', month = 3, year = 2019, total_field = 2, id_field = ''C''\<rparr>"

section \<open>Permutation\<close>

lemma mset_insertBy: "mset (insertBy cmp x ys) = add_mset x (mset ys)"
  by (induction ys) auto

lemma mset_array_sort: "mset (array_sort cmp xs) = mset xs"
  by (induction xs) (auto simp: mset_insertBy)

lemma set_array_sort: "set (array_sort cmp xs) = set xs"
  using mset_array_sort [of cmp xs] by (metis set_mset_mset)

lemma length_array_sort: "length (array_sort cmp xs) = length xs"
  using mset_array_sort [of cmp xs] by (metis size_mset)

text \<open>
  C10. The output of the sort, of \<^verbatim>\<open>sortItems\<close> and of the component's
  \<^verbatim>\<open>sortedItems\<close> alike, is a permutation of the input: the same records with the same
  multiplicities, and so of the same length.
\<close>

theorem sort_is_permutation:
  "mset (sortItems lc items col dir) = mset items \<and>
   length (sortItems lc items col dir) = length items \<and>
   mset (sortedItems items sd) = mset items \<and>
   length (sortedItems items sd) = length items"
  by (simp add: sortItems_def sortedItems_def mset_array_sort length_array_sort)

section \<open>Collations\<close>

lemma ordinalCompare_collation: "collation ordinalCompare"
  unfolding collation_def ordinalCompare_def by (auto split: if_splits)

lemma collation_refl: "collation lc \<Longrightarrow> lc s s = 0"
  by (simp add: collation_def)

lemma collation_flip: "collation lc \<Longrightarrow> (lc s t < 0) = (0 < lc t s)"
  by (simp add: collation_def)

lemma collation_zero_sym: "collation lc \<Longrightarrow> (lc s t = 0) = (lc t s = 0)"
  using collation_flip [of lc s t] collation_flip [of lc t s] by linarith

lemma collation_trans: "collation lc \<Longrightarrow> lc s t \<le> 0 \<Longrightarrow> lc t u \<le> 0 \<Longrightarrow> lc s u \<le> 0"
  unfolding collation_def by blast

lemma collation_ge_iff: "collation lc \<Longrightarrow> (0 \<le> lc s t) = (lc t s \<le> 0)"
  using collation_flip [of lc s t] by linarith

lemma collation_strict_trans1:
  assumes "collation lc" "lc s t < 0" "lc t u \<le> 0"
  shows "lc s u < 0"
proof (rule ccontr)
  assume "\<not> lc s u < 0"
  then have "lc u s \<le> 0" using collation_ge_iff [OF assms(1), of s u] by simp
  with assms(3) have "lc t s \<le> 0" using collation_trans [OF assms(1)] by blast
  with assms(2) show False using collation_flip [OF assms(1), of s t] by simp
qed

lemma collation_strict_trans2:
  assumes "collation lc" "lc s t \<le> 0" "lc t u < 0"
  shows "lc s u < 0"
proof (rule ccontr)
  assume "\<not> lc s u < 0"
  then have "lc u s \<le> 0" using collation_ge_iff [OF assms(1), of s u] by simp
  with assms(2) have "lc u t \<le> 0" using collation_trans [OF assms(1)] by blast
  with assms(3) show False using collation_flip [OF assms(1), of t u] by simp
qed

lemma collation_zero_trans:
  assumes "collation lc" "lc s t = 0" "lc t u = 0"
  shows "lc s u = 0"
proof -
  have "lc s u \<le> 0" using collation_trans [OF assms(1), of s t u] assms by simp
  moreover have "lc u t = 0" "lc t s = 0"
    using assms collation_zero_sym [OF assms(1)] by auto
  then have "lc u s \<le> 0" using collation_trans [OF assms(1), of u t s] by simp
  then have "0 \<le> lc s u" using collation_ge_iff [OF assms(1), of s u] by simp
  ultimately show ?thesis by simp
qed

section \<open>The comparator by kind of column\<close>

lemma field_of_cases:
  obtains (str) f where "\<forall>a. field_of a col = Str (f a)"
        | (num) f where "\<forall>a. field_of a col = Num (f a)"
  by (cases col) auto

lemma compareValues_Str:
  "field_of a col = Str s \<Longrightarrow> field_of b col = Str t \<Longrightarrow>
   compareValues lc col dir a b = (if dir = ascending then lc s t else - lc s t)"
  by (simp add: compareValues_def)

lemma compareValues_Num:
  "field_of a col = Num x \<Longrightarrow> field_of b col = Num y \<Longrightarrow>
   compareValues lc col dir a b =
     (if x < y then (if dir = ascending then - 1 else 1)
      else if y < x then (if dir = ascending then 1 else - 1)
      else tieBreak lc a b)"
  by (simp add: compareValues_def js_gt_def tieBreak_def)

text \<open>
  On a numeric column the tie-break chain decides between two records whose primary
  values are equal, whatever the direction.
\<close>

lemma numeric_tie_uses_chain:
  assumes "col \<in> {K_month, K_year, K_total}" and "field_of a col = field_of b col"
  shows "compareValues lc col dir a b =
           (if lc (location a) (location b) \<noteq> 0 then lc (location a) (location b)
            else if year a \<noteq> year b then year b - year a
            else month b - month a)"
  using assms by (auto simp: compareValues_def js_gt_def)

lemma full_tie_compare:
  assumes "collation lc" "full_tie col a b"
  shows "compareValues lc col dir a b = 0"
  using assms collation_refl [OF assms(1)]
  by (cases col) (auto simp: full_tie_def compareValues_def js_gt_def)

lemma compareValues_refl: "collation lc \<Longrightarrow> compareValues lc col dir a a = 0"
  by (rule full_tie_compare) (simp_all add: full_tie_def)

subsection \<open>The comparator is consistent\<close>

lemma tieBreak_le_iff:
  "(tieBreak lc a b \<le> 0) =
     (lc (location a) (location b) < 0 \<or>
      (lc (location a) (location b) = 0 \<and>
        (year b < year a \<or> (year a = year b \<and> month b \<le> month a))))"
  unfolding tieBreak_def by auto

lemma tieBreak_trans:
  assumes c: "collation lc" and 1: "tieBreak lc a b \<le> 0" and 2: "tieBreak lc b z \<le> 0"
  shows "tieBreak lc a z \<le> 0"
proof -
  let ?l = "\<lambda>a b. lc (location a) (location b)"
  from 1 have ab: "?l a b < 0 \<or>
      (?l a b = 0 \<and> (year b < year a \<or> (year a = year b \<and> month b \<le> month a)))"
    by (simp add: tieBreak_le_iff)
  from 2 have bz: "?l b z < 0 \<or>
      (?l b z = 0 \<and> (year z < year b \<or> (year b = year z \<and> month z \<le> month b)))"
    by (simp add: tieBreak_le_iff)
  show ?thesis
  proof (cases "?l a b < 0 \<or> ?l b z < 0")
    case True
    then have "?l a z < 0"
      using ab bz collation_strict_trans1 [OF c, of "location a" "location b" "location z"]
        collation_strict_trans2 [OF c, of "location a" "location b" "location z"]
      by auto
    then show ?thesis by (simp add: tieBreak_le_iff)
  next
    case False
    with ab bz have "?l a b = 0" "?l b z = 0" by auto
    then have "?l a z = 0" using collation_zero_trans [OF c] by blast
    with False ab bz show ?thesis by (auto simp: tieBreak_le_iff)
  qed
qed

lemma tieBreak_flip:
  assumes c: "collation lc"
  shows "(tieBreak lc a b < 0) = (0 < tieBreak lc b a)"
  using collation_flip [OF c, of "location a" "location b"]
    collation_flip [OF c, of "location b" "location a"]
  unfolding tieBreak_def by (auto split: if_splits)

lemma compareValues_consistent:
  assumes c: "collation lc"
  shows "consistent (compareValues lc col dir)"
proof (cases col rule: field_of_cases)
  case (str f)
  then have eq: "\<And>a b. compareValues lc col dir a b =
      (if dir = ascending then lc (f a) (f b) else - lc (f a) (f b))"
    by (simp add: compareValues_Str)
  show ?thesis
  proof (cases dir)
    case ascending
    then show ?thesis
      unfolding consistent_def eq
      using collation_flip [OF c] collation_trans [OF c] by auto
  next
    case descending
    have "lc (f a) (f z) \<ge> 0" if "lc (f a) (f b) \<ge> 0" "lc (f b) (f z) \<ge> 0" for a b z
    proof -
      from that have "lc (f z) (f b) \<le> 0" "lc (f b) (f a) \<le> 0"
        by (simp_all add: collation_ge_iff [OF c])
      then have "lc (f z) (f a) \<le> 0" by (rule collation_trans [OF c])
      then show ?thesis by (simp add: collation_ge_iff [OF c])
    qed
    with descending show ?thesis
      unfolding consistent_def eq
      using collation_flip [OF c] by auto
  qed
next
  case (num f)
  then have eq: "\<And>a b. compareValues lc col dir a b =
     (if f a < f b then (if dir = ascending then - 1 else 1)
      else if f b < f a then (if dir = ascending then 1 else - 1)
      else tieBreak lc a b)"
    by (simp add: compareValues_Num)
  show ?thesis
    unfolding consistent_def eq
    using tieBreak_flip [OF c] tieBreak_trans [OF c]
    by (cases dir) (auto split: if_splits)
qed

section \<open>The sort returns a sorted sequence\<close>

lemma set_insertBy: "set (insertBy cmp x ys) = insert x (set ys)"
  by (induction ys) auto

lemma sorted_insertBy:
  assumes "consistent cmp" and "sorted_wrt (\<lambda>a b. cmp a b \<le> 0) ys"
  shows "sorted_wrt (\<lambda>a b. cmp a b \<le> 0) (insertBy cmp x ys)"
  using assms(2)
proof (induction ys)
  case Nil
  then show ?case by simp
next
  case (Cons y ys)
  show ?case
  proof (cases "cmp x y \<le> 0")
    case True
    have "\<forall>z\<in>set ys. cmp x z \<le> 0"
      using True Cons.prems assms(1) unfolding consistent_def by (metis sorted_wrt.simps(2))
    with True Cons.prems show ?thesis by simp
  next
    case False
    then have "cmp y x \<le> 0"
      using assms(1) unfolding consistent_def by (simp add: order_less_imp_le)
    with False Cons show ?thesis by (auto simp: set_insertBy)
  qed
qed

lemma sorted_array_sort:
  "consistent cmp \<Longrightarrow> sorted_wrt (\<lambda>a b. cmp a b \<le> 0) (array_sort cmp xs)"
  by (induction xs) (auto intro: sorted_insertBy)

lemma sortItems_sorted:
  "collation lc \<Longrightarrow>
   sorted_wrt (\<lambda>a b. compareValues lc col dir a b \<le> 0) (sortItems lc items col dir)"
  unfolding sortItems_def by (rule sorted_array_sort [OF compareValues_consistent])

section \<open>The tie-break chain\<close>

text \<open>
  C1. Two records whose values in the primary column compare equal are to be ordered by
  location ascending, then by year descending, then by month descending. The comparator
  does so on the numeric columns (\<open>numeric_tie_uses_chain\<close>). On the column
  \<^verbatim>\<open>location\<close> it returns from the string branch before the chain is reached: two
  records of the same location, one of 2020 and one of 2021, compare as 0 and stay in
  the order of the input, the older one first.
\<close>

theorem location_tie_skips_tie_break:
  assumes "collation lc"
  shows "compareValues lc K_location dir row2020 row2021 = 0 \<and>
         sortItems lc [row2020, row2021] K_location dir = [row2020, row2021]"
  using collation_refl [OF assms]
  by (simp add: compareValues_def sortItems_def row2020_def row2021_def)

theorem location_tie_skips_tie_break_witness:
  "collation ordinalCompare \<and>
   compareValues ordinalCompare K_location ascending row2020 row2021 = 0 \<and>
   sortItems ordinalCompare [row2020, row2021] K_location ascending = [row2020, row2021]"
  using location_tie_skips_tie_break [OF ordinalCompare_collation, of ascending]
    ordinalCompare_collation
  by simp

section \<open>The sort of the displayed table\<close>

text \<open>
  C2. The sequence shown by the component, \<^verbatim>\<open>sortedItems\<close>, is to equal the one
  \<^verbatim>\<open>sortItems\<close> produces. The component does not call \<^verbatim>\<open>sortItems\<close>; its inline
  comparison has no tie-break chain. Sorted by total, two records of equal total and
  location from 2020 and 2021 keep the order of the input in the component, while
  \<^verbatim>\<open>sortItems\<close> puts the later year first.
\<close>

theorem component_sort_ignores_tie_break:
  assumes "collation lc"
  shows "sortedItems [row2020, row2021] \<lparr>column = K_total, direction = ascending\<rparr>
           = [row2020, row2021] \<and>
         sortItems lc [row2020, row2021] K_total ascending = [row2021, row2020]"
  using collation_refl [OF assms]
  by (simp add: sortItems_def sortedItems_def compareValues_def inlineCompare_def
      row2020_def row2021_def js_gt_def)

theorem component_sort_ignores_tie_break_witness:
  "collation ordinalCompare \<and>
   sortedItems [row2020, row2021] \<lparr>column = K_total, direction = ascending\<rparr>
     = [row2020, row2021] \<and>
   sortItems ordinalCompare [row2020, row2021] K_total ascending = [row2021, row2020]"
  using component_sort_ignores_tie_break [OF ordinalCompare_collation]
    ordinalCompare_collation
  by simp

section \<open>Stability\<close>

lemma filter_insertBy_other:
  "\<not> P x \<Longrightarrow> filter P (insertBy cmp x ys) = filter P ys"
  by (induction ys) auto

lemma filter_insertBy_first:
  "P x \<Longrightarrow> \<forall>y\<in>set ys. P y \<longrightarrow> cmp x y \<le> 0 \<Longrightarrow>
   filter P (insertBy cmp x ys) = x # filter P ys"
  by (induction ys) auto

text \<open>Elements that the comparison never puts apart keep the order they had.\<close>

lemma array_sort_stable:
  assumes "\<forall>x y. P x \<longrightarrow> P y \<longrightarrow> cmp x y \<le> 0"
  shows "filter P (array_sort cmp xs) = filter P xs"
proof (induction xs)
  case Nil
  then show ?case by simp
next
  case (Cons x xs)
  show ?case
  proof (cases "P x")
    case True
    then have "filter P (insertBy cmp x (array_sort cmp xs)) = x # filter P (array_sort cmp xs)"
      using assms by (intro filter_insertBy_first) auto
    with True Cons.IH show ?thesis by simp
  next
    case False
    with Cons.IH show ?thesis by (simp add: filter_insertBy_other)
  qed
qed

text \<open>
  C3. The sort is stable on full ties. For two records \<open>a\<close> and \<open>b\<close> that agree on
  location, year, month and the primary column, the comparator returns exactly 0 (in
  both orders of the arguments), and the occurrences of \<open>a\<close> and \<open>b\<close> stand in the
  sorted sequence in the order they had in the input. In particular the two records
  (location X, month 1, year 2020, total 5), whatever their identifiers, given as
  [A, B] and sorted by total ascending come out as [A, B].
\<close>

theorem full_ties_keep_input_order:
  assumes "collation lc" and "full_tie col a b"
  shows "compareValues lc col dir a b = 0 \<and> compareValues lc col dir b a = 0 \<and>
         filter (\<lambda>r. r = a \<or> r = b) (sortItems lc items col dir) =
           filter (\<lambda>r. r = a \<or> r = b) items \<and>
         sortItems lc
           [\<lparr>location = ''X'', month = 1, year = 2020, total_field = 5, id_field = i\<rparr>,
            \<lparr>location = ''X'', month = 1, year = 2020, total_field = 5, id_field = j\<rparr>]
           K_total ascending =
           [\<lparr>location = ''X'', month = 1, year = 2020, total_field = 5, id_field = i\<rparr>,
            \<lparr>location = ''X'', month = 1, year = 2020, total_field = 5, id_field = j\<rparr>]"
proof -
  have ba: "full_tie col b a" using assms(2) by (auto simp: full_tie_def)
  have aa: "full_tie col a a" "full_tie col b b" by (auto simp: full_tie_def)
  note z = full_tie_compare [OF assms(1)]
  have "\<forall>x y. (x = a \<or> x = b) \<longrightarrow> (y = a \<or> y = b) \<longrightarrow> compareValues lc col dir x y \<le> 0"
    using z [OF assms(2)] z [OF ba] z [OF aa(1)] z [OF aa(2)] by auto
  then have "filter (\<lambda>r. r = a \<or> r = b) (sortItems lc items col dir) =
      filter (\<lambda>r. r = a \<or> r = b) items"
    by (simp add: sortItems_def array_sort_stable)
  moreover have "sortItems lc
           [\<lparr>location = ''X'', month = 1, year = 2020, total_field = 5, id_field = i\<rparr>,
            \<lparr>location = ''X'', month = 1, year = 2020, total_field = 5, id_field = j\<rparr>]
           K_total ascending =
           [\<lparr>location = ''X'', month = 1, year = 2020, total_field = 5, id_field = i\<rparr>,
            \<lparr>location = ''X'', month = 1, year = 2020, total_field = 5, id_field = j\<rparr>]"
    using collation_refl [OF assms(1)]
    by (simp add: sortItems_def compareValues_def js_gt_def)
  ultimately show ?thesis
    using z [OF assms(2)] z [OF ba] by simp
qed

theorem full_ties_keep_input_order_witness:
  "collation ordinalCompare \<and> full_tie K_total rowA rowB \<and> rowA \<noteq> rowB \<and>
   compareValues ordinalCompare K_total descending rowA rowB = 0 \<and>
   filter (\<lambda>r. r = rowA \<or> r = rowB)
     (sortItems ordinalCompare [rowA, rowC, rowB] K_total descending) = [rowA, rowB]"
proof -
  have t: "full_tie K_total rowA rowB" by (simp add: full_tie_def rowA_def rowB_def)
  have n: "rowA \<noteq> rowB" "rowC \<noteq> rowA" "rowC \<noteq> rowB"
    by (simp_all add: rowA_def rowB_def rowC_def)
  from full_ties_keep_input_order [OF ordinalCompare_collation t, of descending "[rowA, rowC, rowB]"]
  show ?thesis using ordinalCompare_collation t n by simp
qed

section \<open>Ascending against descending\<close>

lemma primary_tie_refl: "collation lc \<Longrightarrow> primary_tie lc col a a"
  by (cases col) (auto simp: primary_tie_def js_gt_def collation_refl)

lemma primary_tie_sym: "collation lc \<Longrightarrow> primary_tie lc col a b = primary_tie lc col b a"
  using collation_zero_sym [of lc]
  by (cases col) (auto simp: primary_tie_def js_gt_def)

lemma no_ties_set:
  assumes c: "collation lc" and "no_ties lc col xs"
  shows "distinct xs \<and> (\<forall>a\<in>set xs. \<forall>b\<in>set xs. a \<noteq> b \<longrightarrow> \<not> primary_tie lc col a b)"
  using assms(2) unfolding no_ties_def
proof (induction xs)
  case Nil
  then show ?case by simp
next
  case (Cons x xs)
  then have hd: "\<forall>y\<in>set xs. \<not> primary_tie lc col x y" by simp
  then have "x \<notin> set xs" using primary_tie_refl [OF c] by blast
  moreover have "\<forall>y\<in>set xs. \<not> primary_tie lc col y x"
    using hd primary_tie_sym [OF c] by blast
  ultimately show ?case using Cons hd by auto
qed

text \<open>
  Without a tie in the primary column the comparison is never 0, and the direction
  exchanges its sign.
\<close>

lemma no_tie_compare:
  assumes c: "collation lc" and "\<not> primary_tie lc col a b"
  shows "compareValues lc col dir a b \<noteq> 0 \<and>
         (compareValues lc col descending b a < 0) = (compareValues lc col ascending a b < 0)"
proof (cases col rule: field_of_cases)
  case (str f)
  then show ?thesis
    using assms(2) collation_flip [OF c, of "f a" "f b"] collation_flip [OF c, of "f b" "f a"]
    by (auto simp: compareValues_Str primary_tie_def)
next
  case (num f)
  then show ?thesis
    using assms(2) by (auto simp: compareValues_Num primary_tie_def js_gt_def)
qed

text \<open>A multiset has at most one arrangement that is sorted by an asymmetric relation.\<close>

lemma strict_sorted_unique:
  assumes asym: "\<And>a b. R a b \<Longrightarrow> \<not> R b a"
  shows "sorted_wrt R xs \<Longrightarrow> sorted_wrt R ys \<Longrightarrow> mset xs = mset ys \<Longrightarrow> xs = ys"
proof (induction xs arbitrary: ys)
  case Nil
  then show ?case by simp
next
  case (Cons x xs)
  then obtain y ys' where ys: "ys = y # ys'" by (cases ys) auto
  have "x = y"
  proof (rule ccontr)
    assume ne: "x \<noteq> y"
    have "x \<in> set ys" using Cons.prems(3) by (metis list.set_intros(1) mset_eq_setD)
    with ne ys have "x \<in> set ys'" by simp
    then have 1: "R y x" using Cons.prems(2) ys by simp
    have "y \<in> set (x # xs)" using Cons.prems(3) ys by (metis list.set_intros(1) mset_eq_setD)
    with ne have "y \<in> set xs" by simp
    then have "R x y" using Cons.prems(1) by simp
    with 1 asym show False by blast
  qed
  with Cons ys show ?case by simp
qed

lemma sort_strict:
  assumes c: "collation lc" and nt: "distinct xs"
    "\<forall>a\<in>set xs. \<forall>b\<in>set xs. a \<noteq> b \<longrightarrow> \<not> primary_tie lc col a b"
  shows "sorted_wrt (\<lambda>a b. compareValues lc col dir a b < 0) (sortItems lc xs col dir)"
proof -
  let ?ys = "sortItems lc xs col dir"
  have s: "sorted_wrt (\<lambda>a b. compareValues lc col dir a b \<le> 0) ?ys"
    by (rule sortItems_sorted [OF c])
  have d: "distinct ?ys" using nt(1) mset_array_sort [of "compareValues lc col dir" xs]
    unfolding sortItems_def by (metis mset_eq_imp_distinct_iff)
  have st: "set ?ys = set xs" by (simp add: sortItems_def set_array_sort)
  show ?thesis
    unfolding sorted_wrt_iff_nth_less
  proof (intro allI impI)
    fix i j assume ij: "i < j" "j < length ?ys"
    then have "?ys ! i \<noteq> ?ys ! j" using d by (simp add: nth_eq_iff_index_eq)
    moreover have "?ys ! i \<in> set xs" "?ys ! j \<in> set xs"
      using ij st by (metis nth_mem order_less_trans, metis nth_mem)
    ultimately have "\<not> primary_tie lc col (?ys ! i) (?ys ! j)" using nt(2) by blast
    then have "compareValues lc col dir (?ys ! i) (?ys ! j) \<noteq> 0"
      using no_tie_compare [OF c] by blast
    moreover have "compareValues lc col dir (?ys ! i) (?ys ! j) \<le> 0"
      using s ij unfolding sorted_wrt_iff_nth_less by blast
    ultimately show "compareValues lc col dir (?ys ! i) (?ys ! j) < 0" by simp
  qed
qed

text \<open>
  C4. For a list of records without ties in the chosen primary column, the descending
  sort is the exact reverse of the ascending sort, whether it is applied to the
  original list or to the ascending sequence.
\<close>

theorem descending_reverses_ascending:
  assumes c: "collation lc" and nt: "no_ties lc col xs"
  shows "sortItems lc xs col descending = rev (sortItems lc xs col ascending) \<and>
         sortItems lc (sortItems lc xs col ascending) col descending =
           rev (sortItems lc xs col ascending)"
proof -
  let ?R = "\<lambda>a b. compareValues lc col descending a b < 0"
  let ?A = "sortItems lc xs col ascending"
  note ns = no_ties_set [OF c nt]
  have asym: "\<not> ?R b a" if "?R a b" for a b
  proof -
    from that have "0 < compareValues lc col descending b a"
      using compareValues_consistent [OF c, of col descending] unfolding consistent_def by blast
    then show ?thesis by simp
  qed
  have mA: "mset ?A = mset xs" by (simp add: sortItems_def mset_array_sort)
  have sA: "set ?A = set xs" by (simp add: sortItems_def set_array_sort)
  have dA: "distinct ?A" using ns mA by (metis mset_eq_imp_distinct_iff)
  have ntA: "\<forall>a\<in>set ?A. \<forall>b\<in>set ?A. a \<noteq> b \<longrightarrow> \<not> primary_tie lc col a b"
    using ns sA by simp
  have up: "sorted_wrt (\<lambda>a b. compareValues lc col ascending a b < 0) ?A"
    using sort_strict [OF c] ns by blast
  have "sorted_wrt (\<lambda>a b. ?R b a) ?A"
  proof (rule sorted_wrt_mono_rel [OF _ up])
    fix a b assume "a \<in> set ?A" "b \<in> set ?A" "compareValues lc col ascending a b < 0"
    moreover from this have "\<not> primary_tie lc col a b"
      using ntA compareValues_refl [OF c, of col ascending a] by force
    ultimately show "?R b a" using no_tie_compare [OF c] by blast
  qed
  then have rv: "sorted_wrt ?R (rev ?A)" by (simp add: sorted_wrt_rev)
  have d1: "sorted_wrt ?R (sortItems lc xs col descending)"
    using sort_strict [OF c] ns by blast
  have d2: "sorted_wrt ?R (sortItems lc ?A col descending)"
    using sort_strict [OF c dA ntA] by blast
  have "sortItems lc xs col descending = rev ?A"
    by (rule strict_sorted_unique [OF asym d1 rv]) (simp_all add: sortItems_def mset_array_sort)
  moreover have "sortItems lc ?A col descending = rev ?A"
    by (rule strict_sorted_unique [OF asym d2 rv]) (simp_all add: sortItems_def mset_array_sort)
  ultimately show ?thesis by simp
qed

theorem descending_reverses_ascending_witness:
  "collation ordinalCompare \<and> no_ties ordinalCompare K_year [row2021, rowC, row2020] \<and>
   sortItems ordinalCompare [row2021, rowC, row2020] K_year ascending
     = [rowC, row2020, row2021] \<and>
   sortItems ordinalCompare [row2021, rowC, row2020] K_year descending
     = [row2021, row2020, rowC] \<and>
   sortItems ordinalCompare [rowC, row2020, row2021] K_year descending
     = [row2021, row2020, rowC]"
proof -
  have nt: "no_ties ordinalCompare K_year [row2021, rowC, row2020]"
    by (simp add: no_ties_def primary_tie_def js_gt_def row2021_def rowC_def row2020_def)
  have up: "sortItems ordinalCompare [row2021, rowC, row2020] K_year ascending
      = [rowC, row2020, row2021]"
    by (simp add: sortItems_def compareValues_def js_gt_def row2021_def rowC_def row2020_def)
  from descending_reverses_ascending [OF ordinalCompare_collation nt]
  show ?thesis using ordinalCompare_collation nt up by simp
qed

section \<open>The sort state machine\<close>

text \<open>
  C5. The sort state starts as (location, ascending). On every request to sort by a
  column, a column other than the current one becomes the state with direction
  ascending, and the current column keeps the column and flips the direction.
\<close>

theorem sort_state_transitions:
  "initialSortDescriptor = \<lparr>column = K_location, direction = ascending\<rparr> \<and>
   (requested \<noteq> column s \<longrightarrow>
      onSortChange s requested = \<lparr>column = requested, direction = ascending\<rparr>) \<and>
   (requested = column s \<longrightarrow>
      onSortChange s requested =
        \<lparr>column = column s,
         direction = (if direction s = ascending then descending else ascending)\<rparr>)"
  by (simp add: initialSortDescriptor_def onSortChange_def setSortDescriptor_def
      requestSort_def)

theorem sort_state_transitions_witness:
  "K_total \<noteq> column initialSortDescriptor \<and>
   onSortChange initialSortDescriptor K_total
     = \<lparr>column = K_total, direction = ascending\<rparr> \<and>
   K_location = column initialSortDescriptor \<and>
   onSortChange initialSortDescriptor K_location
     = \<lparr>column = K_location, direction = descending\<rparr>"
proof -
  have a: "K_total \<noteq> column initialSortDescriptor"
    and b: "K_location = column initialSortDescriptor"
    and c: "direction initialSortDescriptor = ascending"
    by (simp_all add: initialSortDescriptor_def)
  from sort_state_transitions [of K_total initialSortDescriptor] a
  have 1: "onSortChange initialSortDescriptor K_total
      = \<lparr>column = K_total, direction = ascending\<rparr>"
    by blast
  from sort_state_transitions [of K_location initialSortDescriptor] b
  have "onSortChange initialSortDescriptor K_location =
        \<lparr>column = column initialSortDescriptor,
         direction = (if direction initialSortDescriptor = ascending
                      then descending else ascending)\<rparr>"
    by blast
  then have 2: "onSortChange initialSortDescriptor K_location
      = \<lparr>column = K_location, direction = descending\<rparr>"
    unfolding c b [symmetric] by simp
  from a b 1 2 show ?thesis by blast
qed

section \<open>Normalization\<close>

text \<open>
  C6. \<^verbatim>\<open>mapLocationResult\<close> returns one record for each raw record, in the order of
  the input, with the four fields of the raw record and with the identifier made of the
  location, a hyphen, the month, a hyphen and the year.
\<close>

theorem mapLocationResult_records:
  "length (mapLocationResult raw) = length raw \<and>
   (\<forall>i<length raw.
      location (mapLocationResult raw ! i) = location (raw ! i) \<and>
      month (mapLocationResult raw ! i) = month (raw ! i) \<and>
      year (mapLocationResult raw ! i) = year (raw ! i) \<and>
      total_field (mapLocationResult raw ! i) = total_field (raw ! i) \<and>
      id_field (mapLocationResult raw ! i) =
        location (raw ! i) @ ''-'' @ numberToString (month (raw ! i)) @ ''-'' @
        numberToString (year (raw ! i)))"
  by (simp add: mapLocationResult_def)

theorem mapLocationResult_records_witness:
  "(1::nat) < length [raw_x_5, raw_y] \<and> length (mapLocationResult [raw_x_5, raw_y]) = 2 \<and>
   id_field (mapLocationResult [raw_x_5, raw_y] ! 1) = ''Y-12-2021'' \<and>
   total_field (mapLocationResult [raw_x_5, raw_y] ! 1) = 7"
  using mapLocationResult_records [of "[raw_x_5, raw_y]"]
  by (simp add: raw_x_5_def raw_y_def numberToString_def natToString.simps digitChar_def)

subsection \<open>Decimal numerals\<close>

lemma digitChar_inj: "m < 10 \<Longrightarrow> n < 10 \<Longrightarrow> digitChar m = digitChar n \<Longrightarrow> m = n"
proof -
  assume a: "m < 10" "n < 10" "digitChar m = digitChar n"
  have "distinct ''0123456789''" by simp
  moreover have "m < length ''0123456789''" "n < length ''0123456789''" using a by simp_all
  ultimately show ?thesis using a(3) a(1,2) unfolding digitChar_def
    by (simp add: nth_eq_iff_index_eq)
qed

lemma digitChar_not_minus: "digitChar n \<noteq> CHR ''-''"
proof -
  have "digitChar n \<in> set ''0123456789''"
    unfolding digitChar_def by (rule nth_mem) simp
  then show ?thesis by auto
qed

lemma natToString_small: "n < 10 \<Longrightarrow> natToString n = [digitChar n]"
  by (subst natToString.simps) simp

lemma natToString_large:
  "\<not> n < 10 \<Longrightarrow> natToString n = natToString (n div 10) @ [digitChar (n mod 10)]"
  by (subst natToString.simps) simp

lemma natToString_not_Nil: "natToString n \<noteq> []"
  by (subst natToString.simps) simp

lemma natToString_no_minus: "CHR ''-'' \<notin> set (natToString n)"
proof (induction n rule: natToString.induct)
  case (1 n)
  show ?case
  proof (cases "n < 10")
    case True
    then show ?thesis using digitChar_not_minus [of n] by (auto simp: natToString_small)
  next
    case False
    then show ?thesis
      using "1.IH" [OF False] digitChar_not_minus [of "n mod 10"]
      by (auto simp: natToString_large)
  qed
qed

lemma natToString_inj: "natToString m = natToString n \<Longrightarrow> m = n"
proof (induction m arbitrary: n rule: natToString.induct)
  case (1 m)
  show ?case
  proof (cases "m < 10")
    case True
    then have m: "natToString m = [digitChar m]" by (rule natToString_small)
    show ?thesis
    proof (cases "n < 10")
      case n: True
      then have "natToString n = [digitChar n]" by (rule natToString_small)
      with m "1.prems" True n show ?thesis by (simp add: digitChar_inj)
    next
      case n: False
      then have "natToString n = natToString (n div 10) @ [digitChar (n mod 10)]"
        by (rule natToString_large)
      with m "1.prems" natToString_not_Nil [of "n div 10"] show ?thesis by simp
    qed
  next
    case False
    then have m: "natToString m = natToString (m div 10) @ [digitChar (m mod 10)]"
      by (rule natToString_large)
    show ?thesis
    proof (cases "n < 10")
      case n: True
      then have "natToString n = [digitChar n]" by (rule natToString_small)
      with m "1.prems" natToString_not_Nil [of "m div 10"] show ?thesis by simp
    next
      case n: False
      then have "natToString n = natToString (n div 10) @ [digitChar (n mod 10)]"
        by (rule natToString_large)
      with m "1.prems" have e: "natToString (m div 10) = natToString (n div 10)"
        "digitChar (m mod 10) = digitChar (n mod 10)" by simp_all
      from e(1) have "m div 10 = n div 10" using "1.IH" False by blast
      moreover from e(2) have "m mod 10 = n mod 10" by (intro digitChar_inj) simp_all
      ultimately show ?thesis by (metis div_mult_mod_eq)
    qed
  qed
qed

subsection \<open>Reading an identifier back\<close>

lemma split_at_last_minus:
  assumes "CHR ''-'' \<notin> set a" "CHR ''-'' \<notin> set b" "r @ CHR ''-'' # a = s @ CHR ''-'' # b"
  shows "r = s \<and> a = b"
  using assms
proof (induction r arbitrary: s)
  case Nil
  then show ?case by (cases s) auto
next
  case (Cons x r)
  then show ?case by (cases s) auto
qed

lemma id_parts_inj:
  assumes m: "0 \<le> m1" "0 \<le> m2"
    and eq: "l1 @ ''-'' @ numberToString m1 @ ''-'' @ numberToString y1 =
             l2 @ ''-'' @ numberToString m2 @ ''-'' @ numberToString y2"
  shows "l1 = l2 \<and> m1 = m2 \<and> y1 = y2"
proof -
  let ?M1 = "natToString (nat m1)" and ?M2 = "natToString (nat m2)"
  have M: "numberToString m1 = ?M1" "numberToString m2 = ?M2"
    using m by (simp_all add: numberToString_def)
  define Y1 where "Y1 = natToString (nat \<bar>y1\<bar>)"
  define Y2 where "Y2 = natToString (nat \<bar>y2\<bar>)"
  define p1 where "p1 = (if y1 < 0 then ''-'' else [])"
  define p2 where "p2 = (if y2 < 0 then ''-'' else [])"
  have Y: "numberToString y1 = p1 @ Y1" "numberToString y2 = p2 @ Y2"
    by (simp_all add: numberToString_def p1_def p2_def Y1_def Y2_def)
  have nm: "CHR ''-'' \<notin> set Y1" "CHR ''-'' \<notin> set Y2"
    "CHR ''-'' \<notin> set ?M1" "CHR ''-'' \<notin> set ?M2"
    by (simp_all add: Y1_def Y2_def natToString_no_minus)
  from eq have "(l1 @ ''-'' @ ?M1 @ p1) @ CHR ''-'' # Y1 = (l2 @ ''-'' @ ?M2 @ p2) @ CHR ''-'' # Y2"
    unfolding M Y p1_def p2_def by (simp split: if_splits)
  from split_at_last_minus [OF nm(1,2) this]
  have 1: "l1 @ ''-'' @ ?M1 @ p1 = l2 @ ''-'' @ ?M2 @ p2" and 2: "Y1 = Y2" by simp_all
  have l1: "last (?M1 @ []) \<noteq> CHR ''-''" "last (?M2 @ []) \<noteq> CHR ''-''"
    using nm(3,4) natToString_not_Nil by (metis append_Nil2 last_in_set)+
  have pe: "p1 = p2"
  proof (rule ccontr)
    assume "p1 \<noteq> p2"
    then consider "p1 = []" "p2 = ''-''" | "p1 = ''-''" "p2 = []"
      by (auto simp: p1_def p2_def split: if_splits)
    then show False
    proof cases
      case 1
      with \<open>l1 @ ''-'' @ ?M1 @ p1 = l2 @ ''-'' @ ?M2 @ p2\<close>
      have "last (l1 @ ''-'' @ ?M1) = last (l2 @ ''-'' @ ?M2 @ ''-'')" by simp
      then show False using l1 natToString_not_Nil by simp
    next
      case 2
      with \<open>l1 @ ''-'' @ ?M1 @ p1 = l2 @ ''-'' @ ?M2 @ p2\<close>
      have "last (l1 @ ''-'' @ ?M1 @ ''-'') = last (l2 @ ''-'' @ ?M2)" by simp
      then show False using l1 natToString_not_Nil by simp
    qed
  qed
  with 1 have "l1 @ CHR ''-'' # ?M1 = l2 @ CHR ''-'' # ?M2" by simp
  from split_at_last_minus [OF nm(3,4) this] have 3: "l1 = l2" "?M1 = ?M2" by simp_all
  from 3(2) have "nat m1 = nat m2" by (rule natToString_inj)
  with m have "m1 = m2" by simp
  moreover from 2 have "nat \<bar>y1\<bar> = nat \<bar>y2\<bar>" unfolding Y1_def Y2_def by (rule natToString_inj)
  with pe have "y1 = y2" by (auto simp: p1_def p2_def split: if_splits)
  ultimately show ?thesis using 3(1) by simp
qed

lemma map_id_mapLocationResult:
  "map id_field (mapLocationResult raw) =
   map (\<lambda>r. location r @ ''-'' @ numberToString (month r) @ ''-'' @ numberToString (year r)) raw"
  by (simp add: mapLocationResult_def comp_def)

subsection \<open>Identifiers\<close>

text \<open>
  C7, as stated: the identifiers of the normalized records are pairwise distinct for
  every sequence of raw records. Two raw records of the same location, month and year
  that differ in the total receive the same identifier.
\<close>

theorem ids_not_always_distinct:
  "\<not> distinct (map id_field (mapLocationResult [raw_x_5, raw_x_7]))"
  by (simp add: mapLocationResult_def raw_x_5_def raw_x_7_def)

text \<open>
  C7, amended: for every sequence of raw records whose triples of location, month and
  year are pairwise distinct and whose months are not negative, the identifiers of the
  normalized records are pairwise distinct.
\<close>

theorem ids_distinct_for_distinct_keys:
  assumes "distinct (map (\<lambda>r. (location r, month r, year r)) raw)"
    and "\<forall>r\<in>set raw. 0 \<le> month r"
  shows "distinct (map id_field (mapLocationResult raw))"
proof -
  let ?f = "\<lambda>r. (location r, month r, year r)"
  let ?g = "\<lambda>(l, m, y). l @ ''-'' @ numberToString m @ ''-'' @ numberToString y"
  have "inj_on ?g (set (map ?f raw))"
  proof (rule inj_onI)
    fix p q
    assume p: "p \<in> set (map ?f raw)" and q: "q \<in> set (map ?f raw)" and e: "?g p = ?g q"
    obtain l1 m1 y1 where p': "p = (l1, m1, y1)" by (cases p)
    obtain l2 m2 y2 where q': "q = (l2, m2, y2)" by (cases q)
    have "0 \<le> m1" "0 \<le> m2" using p q p' q' assms(2) by auto
    from id_parts_inj [OF this] e show "p = q" unfolding p' q' by simp
  qed
  with assms(1) have "distinct (map ?g (map ?f raw))"
    by (simp only: distinct_map)
  moreover have "map ?g (map ?f raw) = map id_field (mapLocationResult raw)"
    by (simp add: map_id_mapLocationResult)
  ultimately show ?thesis by simp
qed

theorem ids_distinct_for_distinct_keys_witness:
  "distinct (map (\<lambda>r. (location r, month r, year r)) [raw_x_5, raw_y]) \<and>
   0 \<le> month raw_x_5 \<and> 0 \<le> month raw_y \<and>
   distinct (map id_field (mapLocationResult [raw_x_5, raw_y]))"
proof -
  have 1: "distinct (map (\<lambda>r. (location r, month r, year r)) [raw_x_5, raw_y])"
    by (simp add: raw_x_5_def raw_y_def)
  have 2: "0 \<le> month raw_x_5" "0 \<le> month raw_y" by (simp_all add: raw_x_5_def raw_y_def)
  then have 3: "\<forall>r\<in>set [raw_x_5, raw_y]. 0 \<le> month r" by simp
  from ids_distinct_for_distinct_keys [OF 1 3] 1 2 show ?thesis by blast
qed

text \<open>
  The bound on the month is needed: with a negative month two different triples can
  give one identifier.
\<close>

lemma negative_month_collision:
  "map id_field (mapLocationResult
     [\<lparr>location = ''a'', month = - 1, year = 2, total_field = 0\<rparr>,
      \<lparr>location = ''a-'', month = 1, year = 2, total_field = 0\<rparr>]) = [''a--1-2'', ''a--1-2'']"
  by (simp add: mapLocationResult_def numberToString_def natToString.simps digitChar_def)

section \<open>The sort on the store\<close>

lemma sort_in_place_slice:
  assumes "r < length h"
  shows "sort_in_place cmp (fst (slice h r)) (snd (slice h r)) =
           (h @ [array_sort cmp (h ! r)], length h)"
  using assms by (simp add: slice_def sort_in_place_def nth_append)

text \<open>
  C8. The sort does not change its input. After \<^verbatim>\<open>sortItems\<close>, and after the
  component's \<^verbatim>\<open>sortedItems\<close>, the array passed in and every other array that existed
  before the call hold what they held; the result is an array that did not exist before
  and holds the sorted sequence.
\<close>

theorem sort_leaves_input_unchanged:
  assumes "items < length h"
  shows "(case sortItems_st lc h items col dir of (h', r) \<Rightarrow>
            h' ! items = h ! items \<and> take (length h) h' = h \<and>
            length h \<le> r \<and> r < length h' \<and>
            h' ! r = sortItems lc (h ! items) col dir) \<and>
         (case sortedItems_st h items sd of (h', r) \<Rightarrow>
            h' ! items = h ! items \<and> take (length h) h' = h \<and>
            length h \<le> r \<and> r < length h' \<and>
            h' ! r = sortedItems (h ! items) sd)"
  using assms sort_in_place_slice [OF assms]
  by (simp add: sortItems_st_def sortedItems_st_def sortItems_def sortedItems_def
      split_beta nth_append)

theorem sort_leaves_input_unchanged_witness:
  "(0::nat) < length [[row2021, row2020]] \<and>
   sortItems_st ordinalCompare [[row2021, row2020]] 0 K_year ascending
     = ([[row2021, row2020], [row2020, row2021]], 1) \<and>
   sortedItems_st [[row2021, row2020]] 0 \<lparr>column = K_year, direction = ascending\<rparr>
     = ([[row2021, row2020], [row2020, row2021]], 1)"
  using sort_leaves_input_unchanged [of 0 "[[row2021, row2020]]" ordinalCompare K_year ascending
      "\<lparr>column = K_year, direction = ascending\<rparr>"]
  by (simp add: sortItems_st_def sortedItems_st_def slice_def sort_in_place_def
      compareValues_def inlineCompare_def js_gt_def row2020_def row2021_def)

text \<open>
  C9. Sorting is deterministic: a second call of \<^verbatim>\<open>sortItems\<close> on the same array with
  the same column and direction, made after the first, returns an array with the same
  sequence as the first, which is the sorted input, and the first result still holds it.
\<close>

theorem sortItems_deterministic:
  assumes "items < length h"
  shows "(case sortItems_st lc h items col dir of (h1, r1) \<Rightarrow>
          case sortItems_st lc h1 items col dir of (h2, r2) \<Rightarrow>
            h2 ! r2 = h1 ! r1 \<and> h2 ! r1 = h1 ! r1 \<and>
            h2 ! r2 = sortItems lc (h ! items) col dir)"
proof -
  let ?s = "array_sort (compareValues lc col dir) (h ! items)"
  have 1: "sortItems_st lc h items col dir = (h @ [?s], length h)"
    using sort_in_place_slice [OF assms] by (simp add: sortItems_st_def split_beta)
  have "items < length (h @ [?s])" using assms by simp
  from sort_in_place_slice [OF this]
  have 2: "sortItems_st lc (h @ [?s]) items col dir = (h @ [?s] @ [?s], Suc (length h))"
    using assms by (simp add: sortItems_st_def split_beta nth_append)
  show ?thesis unfolding 1 using 2 by (simp add: sortItems_def nth_append)
qed

theorem sortItems_deterministic_witness:
  "(0::nat) < length [[row2021, row2020]] \<and>
   (case sortItems_st ordinalCompare [[row2021, row2020]] 0 K_year ascending of (h1, r1) \<Rightarrow>
    case sortItems_st ordinalCompare h1 0 K_year ascending of (h2, r2) \<Rightarrow>
      h2 ! r2 = [row2020, row2021] \<and> h2 ! r1 = [row2020, row2021] \<and> r1 \<noteq> r2)"
proof -
  have 0: "(0::nat) < length [[row2021, row2020]]" by simp
  have 1: "sortItems_st ordinalCompare [[row2021, row2020]] 0 K_year ascending
      = ([[row2021, row2020], [row2020, row2021]], 1)"
    by (simp add: sortItems_st_def slice_def sort_in_place_def
        compareValues_def js_gt_def row2020_def row2021_def)
  have 2: "sortItems_st ordinalCompare [[row2021, row2020], [row2020, row2021]] 0 K_year ascending
      = ([[row2021, row2020], [row2020, row2021], [row2020, row2021]], 2)"
    by (simp add: sortItems_st_def slice_def sort_in_place_def
        compareValues_def js_gt_def row2020_def row2021_def)
  from sortItems_deterministic [OF 0, of ordinalCompare K_year ascending]
  have "[[row2021, row2020], [row2020, row2021], [row2020, row2021]] ! 2
      = [[row2021, row2020], [row2020, row2021]] ! 1"
    by (simp add: 1 2)
  then show ?thesis by (simp add: 1 2)
qed

end
